theory Spec2Isabelle
  imports Main "HOL-Library.Word"
begin

unbundle bit_operations_syntax

section \<open>Data model\<close>

text \<open>
  An image is a numpy array of shape (height, width, 3) and dtype uint8: a list of rows,
  each row a list of pixels, each pixel the three channel values in the image's own
  channel order (channel 0, channel 1, channel 2; OpenCV stores blue, green, red).
  A mask is a uint8 array of shape (height, width). Arithmetic on uint8 arrays wraps
  modulo 256, which is the arithmetic of \<open>8 word\<close>.
\<close>

type_synonym pixel = "8 word \<times> 8 word \<times> 8 word"
type_synonym image = "pixel list list"
type_synonym mask = "8 word list list"
type_synonym hsv = "8 word \<times> 8 word \<times> 8 word"

text \<open>\<open>shape h w a\<close>: the array has \<open>h\<close> rows of \<open>w\<close> entries each.\<close>

definition shape :: "nat \<Rightarrow> nat \<Rightarrow> 'a list list \<Rightarrow> bool" where
  "shape h w a = (length a = h \<and> list_all (\<lambda>row. length row = w) a)"

text \<open>\<open>selected m y x\<close>: position (y, x) lies in the mask and its value is nonzero
  (the truth value of \<open>m > 0\<close> in the source).\<close>

definition selected :: "mask \<Rightarrow> nat \<Rightarrow> nat \<Rightarrow> bool" where
  "selected m y x = (y < length m \<and> x < length (m ! y) \<and> m ! y ! x \<noteq> 0)"

section \<open>Dominant colour detection (source lines 136 to 162)\<close>

text \<open>
  \<open>cv2.calcHist([img], [0, 1, 2], None, [8, 8, 8], [0, 256, 0, 256, 0, 256])\<close>: axis k of
  the histogram is channel k of the image, each axis has 8 bins of 32 levels.
  After \<open>flatten()\<close> the bin with indices (c0, c1, c2) is at position c0 * 64 + c1 * 8 + c2.
  The library returns the counts as float32 numbers, which are the counts themselves
  below 2^24; \<open>calcHist\<close> is the count.
\<close>

definition bin_of_pixel :: "pixel \<Rightarrow> nat" where
  "bin_of_pixel p = (case p of (p0, p1, p2) \<Rightarrow>
     (unat p0 div 32) * 64 + (unat p1 div 32) * 8 + unat p2 div 32)"

definition calcHist :: "image \<Rightarrow> nat \<Rightarrow> nat" where
  "calcHist img idx = length (filter (\<lambda>p. bin_of_pixel p = idx) (concat img))"

text \<open>\<open>np.unravel_index(idx, (8, 8, 8))\<close>\<close>

definition unravel_index :: "nat \<Rightarrow> nat \<times> nat \<times> nat" where
  "unravel_index idx = (idx div 64, (idx div 8) mod 8, idx mod 8)"

text \<open>The centre value the loop body computes for a bin, with the source's names
  \<open>r\<close>, \<open>g\<close>, \<open>b\<close> for the first, second and third bin index.\<close>

definition bin_center :: "nat \<Rightarrow> int \<times> int \<times> int" where
  "bin_center idx = (case unravel_index idx of (r_bin, g_bin, b_bin) \<Rightarrow>
     (int r_bin * 32 + 16, int g_bin * 32 + 16, int b_bin * 32 + 16))"

text \<open>
  The \<open>for idx in sorted_indices\<close> loop: \<open>continue\<close> is the recursive call,
  \<open>break\<close> returns the colour, running off the end leaves \<open>None\<close>.
\<close>

fun scan_bins :: "nat list \<Rightarrow> (int \<times> int \<times> int) option" where
  "scan_bins [] = None"
| "scan_bins (idx # rest) =
     (case bin_center idx of (r, g, b) \<Rightarrow>
        if r + g + b < 150 then scan_bins rest
        else if max r (max g b) - min r (min g b) < 20 then scan_bins rest
        else Some (r, g, b))"

definition detect_watermark_color :: "nat list \<Rightarrow> int \<times> int \<times> int" where
  "detect_watermark_color sorted_indices =
     (case scan_bins sorted_indices of None \<Rightarrow> (230, 230, 230) | Some c \<Rightarrow> c)"

text \<open>
  \<open>sorted_indices = np.argsort(hist)[::-1]\<close> is an arrangement of all 512 bin indices
  in which the histogram values do not increase. numpy's default sort is not stable,
  so the order among bins of equal frequency is left open: every such arrangement is
  a possible value. The values sorted are those of \<open>cv2.normalize(hist, hist)\<close>, the
  counts divided by one positive number in single precision; the facts below hold for
  every function \<open>hist\<close> from bins to a linear order, the counts of \<open>calcHist\<close>
  among them.
\<close>

definition descending_order :: "(nat \<Rightarrow> 'a::linorder) \<Rightarrow> nat list \<Rightarrow> bool" where
  "descending_order hist idxs =
     (set idxs = {..<512} \<and> distinct idxs \<and> sorted_wrt (\<lambda>i j. hist j \<le> hist i) idxs)"

text \<open>The two filters in the words of the specification: a bin is kept when the sum of
  its centre's channels is at least 150 and its channel spread is at least 20.\<close>

definition passes_filters :: "int \<times> int \<times> int \<Rightarrow> bool" where
  "passes_filters c = (case c of (r, g, b) \<Rightarrow>
     r + g + b \<ge> 150 \<and> max r (max g b) - min r (min g b) \<ge> 20)"

section \<open>Tolerance mask (source lines 165 to 181)\<close>

definition tol :: int where
  "tol = 80"

text \<open>\<open>target_bgr = np.array([b, g, r], dtype=np.int16)\<close>: the detected triple reversed.
  All values that occur (between -224 and 480) fit into 16 bits.\<close>

definition target_bgr :: "int \<times> int \<times> int \<Rightarrow> int \<times> int \<times> int" where
  "target_bgr watermark_color_rgb = (case watermark_color_rgb of (r, g, b) \<Rightarrow> (b, g, r))"

text \<open>\<open>np.clip(v, 0, 255).astype(np.uint8)\<close>\<close>

definition clip_u8 :: "int \<Rightarrow> 8 word" where
  "clip_u8 v = word_of_int (max 0 (min 255 v))"

definition lower_bgr :: "int \<times> int \<times> int \<Rightarrow> int \<Rightarrow> pixel" where
  "lower_bgr t i = (case t of (t0, t1, t2) \<Rightarrow>
     (clip_u8 (t0 - tol * i), clip_u8 (t1 - tol * i), clip_u8 (t2 - tol * i)))"

definition upper_bgr :: "int \<times> int \<times> int \<Rightarrow> int \<Rightarrow> pixel" where
  "upper_bgr t i = (case t of (t0, t1, t2) \<Rightarrow>
     (clip_u8 (t0 + tol * i), clip_u8 (t1 + tol * i), clip_u8 (t2 + tol * i)))"

text \<open>\<open>cv2.inRange\<close>: 255 where every channel lies in its inclusive range, else 0.\<close>

definition inRange_pixel :: "pixel \<Rightarrow> pixel \<Rightarrow> pixel \<Rightarrow> 8 word" where
  "inRange_pixel lowerb upperb p =
     (case (lowerb, upperb, p) of ((l0, l1, l2), (u0, u1, u2), (p0, p1, p2)) \<Rightarrow>
        if l0 \<le> p0 \<and> p0 \<le> u0 \<and> l1 \<le> p1 \<and> p1 \<le> u1 \<and> l2 \<le> p2 \<and> p2 \<le> u2
        then 255 else 0)"

definition inRange :: "image \<Rightarrow> pixel \<Rightarrow> pixel \<Rightarrow> mask" where
  "inRange img lowerb upperb = map (map (inRange_pixel lowerb upperb)) img"

text \<open>\<open>mask += other\<close> on uint8 arrays of equal shape: entrywise, wrapping.\<close>

definition mask_add :: "mask \<Rightarrow> mask \<Rightarrow> mask" where
  "mask_add a b = map2 (map2 (+)) a b"

text \<open>
  The initial range mask for multiplier 1, then the loop \<open>for i in range(1, 4)\<close>,
  with the list of multipliers the loop runs over as an argument; the source runs it
  over \<open>[1, 2, 3]\<close>.
\<close>

definition accumulate_mask :: "int list \<Rightarrow> image \<Rightarrow> int \<times> int \<times> int \<Rightarrow> mask" where
  "accumulate_mask multipliers img t =
     fold (\<lambda>i msk. mask_add msk (inRange img (lower_bgr t i) (upper_bgr t i)))
       multipliers (inRange img (lower_bgr t 1) (upper_bgr t 1))"

definition tolerance_mask :: "image \<Rightarrow> int \<times> int \<times> int \<Rightarrow> mask" where
  "tolerance_mask img t = accumulate_mask [1, 2, 3] img t"

text \<open>
  The tolerance band in the words of the specification: the pixel lies in the inclusive
  range from (target - tol * i) to (target + tol * i), clamped to 0..255, in every channel.
\<close>

definition clamp255 :: "int \<Rightarrow> int" where
  "clamp255 v = max 0 (min 255 v)"

definition in_band :: "int \<times> int \<times> int \<Rightarrow> int \<Rightarrow> pixel \<Rightarrow> bool" where
  "in_band t i p = (case (t, p) of ((t0, t1, t2), (p0, p1, p2)) \<Rightarrow>
     clamp255 (t0 - 80 * i) \<le> uint p0 \<and> uint p0 \<le> clamp255 (t0 + 80 * i) \<and>
     clamp255 (t1 - 80 * i) \<le> uint p1 \<and> uint p1 \<le> clamp255 (t1 + 80 * i) \<and>
     clamp255 (t2 - 80 * i) \<le> uint p2 \<and> uint p2 \<le> clamp255 (t2 + 80 * i))"

text \<open>The value \<open>cv2.inRange\<close> gives a pixel for the band of multiplier \<open>i\<close>.\<close>

definition band_value :: "int \<times> int \<times> int \<Rightarrow> int \<Rightarrow> pixel \<Rightarrow> 8 word" where
  "band_value t i p = inRange_pixel (lower_bgr t i) (upper_bgr t i) p"

section \<open>Morphological clean-up (source lines 183 to 186)\<close>

text \<open>
  \<open>cv2.getStructuringElement(cv2.MORPH_ELLIPSE, (5, 5))\<close> is the array
  \<^verbatim>\<open>0 0 1 0 0 / 1 1 1 1 1 / 1 1 1 1 1 / 1 1 1 1 1 / 0 0 1 0 0\<close>
  anchored at its centre; \<open>kernel\<close> lists the offsets (dy, dx) of its nonzero entries.
\<close>

definition kernel :: "(int \<times> int) list" where
  "kernel = [(-2, 0),
             (-1, -2), (-1, -1), (-1, 0), (-1, 1), (-1, 2),
             (0, -2), (0, -1), (0, 0), (0, 1), (0, 2),
             (1, -2), (1, -1), (1, 0), (1, 1), (1, 2),
             (2, 0)]"

definition in_image :: "mask \<Rightarrow> int \<Rightarrow> int \<Rightarrow> bool" where
  "in_image m yy xx =
     (0 \<le> yy \<and> yy < int (length m) \<and> 0 \<le> xx \<and> xx < int (length (m ! nat yy)))"

text \<open>The mask values under the kernel placed at (y, x), positions outside the array left out.\<close>

definition neighbourhood :: "mask \<Rightarrow> nat \<Rightarrow> nat \<Rightarrow> 8 word list" where
  "neighbourhood m y x =
     map (\<lambda>(dy, dx). m ! nat (int y + dy) ! nat (int x + dx))
       (filter (\<lambda>(dy, dx). in_image m (int y + dy) (int x + dx)) kernel)"

text \<open>
  One pass of \<open>cv2.dilate\<close> (maximum under the kernel) and of \<open>cv2.erode\<close> (minimum under
  the kernel) with OpenCV's default border: positions outside the array count as 0 for
  the maximum and as 255 for the minimum.
\<close>

definition dilate_once :: "mask \<Rightarrow> mask" where
  "dilate_once m =
     map (\<lambda>y. map (\<lambda>x. fold max (neighbourhood m y x) 0) [0..<length (m ! y)]) [0..<length m]"

definition erode_once :: "mask \<Rightarrow> mask" where
  "erode_once m =
     map (\<lambda>y. map (\<lambda>x. fold min (neighbourhood m y x) 255) [0..<length (m ! y)]) [0..<length m]"

definition dilate :: "mask \<Rightarrow> nat \<Rightarrow> mask" where
  "dilate m iterations = (dilate_once ^^ iterations) m"

text \<open>\<open>cv2.morphologyEx(mask, cv2.MORPH_CLOSE, kernel, iterations=1)\<close>: dilate, then erode.\<close>

definition morph_close :: "mask \<Rightarrow> mask" where
  "morph_close m = erode_once (dilate_once m)"

definition build_mask :: "image \<Rightarrow> int \<times> int \<times> int \<Rightarrow> mask" where
  "build_mask img watermark_color_rgb =
     dilate (morph_close (tolerance_mask img (target_bgr watermark_color_rgb))) 5"

section \<open>Refinement and compositing (source lines 188 to 242)\<close>

text \<open>
  The two colour conversions are functions of the OpenCV library, applied pixel by pixel.
  The pipeline takes them as an argument; \<open>opencv\<close> below is the model of the library's
  8-bit conversions.
\<close>

record cvtColor =
  BGR2HSV :: "pixel \<Rightarrow> hsv"
  HSV2BGR :: "hsv \<Rightarrow> pixel"

definition map2d :: "('a \<Rightarrow> 'b) \<Rightarrow> 'a list list \<Rightarrow> 'b list list" where
  "map2d f a = map (map f) a"

definition zip2d :: "'a list list \<Rightarrow> 'b list list \<Rightarrow> ('a \<times> 'b) list list" where
  "zip2d a b = map2 zip a b"

text \<open>\<open>np.sum(mask)\<close>: numpy adds uint8 entries in a 64-bit accumulator, so for every
  array that fits in memory the sum is the sum of the values.\<close>

definition mask_sum :: "mask \<Rightarrow> nat" where
  "mask_sum m = sum_list (map unat (concat m))"

text \<open>\<open>hsv_adjusted = hsv.copy(); hsv_adjusted[mask > 0, 1] = 0\<close>\<close>

definition hsv_adjusted :: "cvtColor \<Rightarrow> image \<Rightarrow> mask \<Rightarrow> hsv list list" where
  "hsv_adjusted cv img msk =
     (let hsv = map2d (BGR2HSV cv) img
      in map2d (\<lambda>(m, (h, s, v)). if m > 0 then (h, 0, v) else (h, s, v)) (zip2d msk hsv))"

text \<open>\<open>refined_mask = mask.copy(); refined_mask[sat_channel > 30] = 0;
  refined_mask[val_channel < 175] = 0\<close>\<close>

definition refined_mask :: "cvtColor \<Rightarrow> image \<Rightarrow> mask \<Rightarrow> mask" where
  "refined_mask cv img msk =
     (let sat_channel = map2d (\<lambda>(h, s, v). s) (hsv_adjusted cv img msk);
          val_channel = map2d (\<lambda>(h, s, v). v) (hsv_adjusted cv img msk);
          refined = msk;
          refined = map2d (\<lambda>(r, s). if s > 30 then 0 else r) (zip2d refined sat_channel);
          refined = map2d (\<lambda>(r, v). if v < 175 then 0 else r) (zip2d refined val_channel)
      in refined)"

text \<open>\<open>text_mask = cv2.bitwise_and(mask, cv2.bitwise_not(refined_mask))\<close>\<close>

definition text_mask :: "cvtColor \<Rightarrow> image \<Rightarrow> mask \<Rightarrow> mask" where
  "text_mask cv img msk =
     map2d (\<lambda>(m, r). m AND NOT r) (zip2d msk (refined_mask cv img msk))"

text \<open>\<open>dst[sel > 0] = src[sel > 0]\<close> on arrays of equal shape.\<close>

definition assign_where :: "mask \<Rightarrow> image \<Rightarrow> image \<Rightarrow> image" where
  "assign_where sel src dst =
     map2d (\<lambda>(t, (s, d)). if t > 0 then s else d) (zip2d sel (zip2d src dst))"

text \<open>\<open>np.where(m > 0)\<close>: the coordinates (y, x) of the nonzero entries, row by row.\<close>

definition where_nonzero :: "mask \<Rightarrow> (nat \<times> nat) list" where
  "where_nonzero m =
     concat (map (\<lambda>y. map (\<lambda>x. (y, x)) (filter (\<lambda>x. m ! y ! x > 0) [0..<length (m ! y)]))
       [0..<length m])"

text \<open>\<open>img[m > 0]\<close>: the pixels at the nonzero entries of \<open>m\<close>, row by row.\<close>

definition boolean_index :: "image \<Rightarrow> mask \<Rightarrow> pixel list" where
  "boolean_index img m =
     concat (map2 (\<lambda>row mrow. map fst (filter (\<lambda>(p, v). v > 0) (zip row mrow))) img m)"

text \<open>\<open>np.max(pixels, axis=1) - np.min(pixels, axis=1)\<close> on uint8 values.\<close>

definition color_diff :: "pixel \<Rightarrow> 8 word" where
  "color_diff p = (case p of (p0, p1, p2) \<Rightarrow> max p0 (max p1 p2) - min p0 (min p1 p2))"

text \<open>\<open>result[y, x] = v\<close>. The coordinates come from \<open>np.where\<close> and are always in range.\<close>

definition set_pixel :: "image \<Rightarrow> nat \<Rightarrow> nat \<Rightarrow> pixel \<Rightarrow> image" where
  "set_pixel result y x v = result[y := (result ! y)[x := v]]"

text \<open>Source lines 226 to 234: the whitening loop over \<open>enumerate(keep_mask)\<close>.\<close>

definition whiten :: "image \<Rightarrow> mask \<Rightarrow> image \<Rightarrow> image" where
  "whiten original_img refined result =
     (let pixels = boolean_index original_img refined;
          color_diffs = map color_diff pixels;
          keep_mask = map (\<lambda>d. d \<ge> 50) color_diffs;
          coords = where_nonzero refined;
          y_coords = map fst coords;
          x_coords = map snd coords
      in fold (\<lambda>(i, should_modify) result.
                 if should_modify
                 then set_pixel result (y_coords ! i) (x_coords ! i) (255, 255, 255)
                 else result)
           (enumerate 0 keep_mask) result)"

text \<open>Source lines 194 to 242: everything after the empty-mask test.\<close>

definition composite :: "cvtColor \<Rightarrow> image \<Rightarrow> mask \<Rightarrow> image" where
  "composite cv original_img msk =
     (let result = map2d (HSV2BGR cv) (hsv_adjusted cv original_img msk);
          refined = refined_mask cv original_img msk;
          text = text_mask cv original_img msk;
          result = assign_where text original_img result
      in whiten original_img refined result)"

text \<open>Source lines 188 to 242: the empty-mask test and what follows it.\<close>

definition process_with_mask :: "cvtColor \<Rightarrow> image \<Rightarrow> mask \<Rightarrow> image" where
  "process_with_mask cv original_img msk =
     (if mask_sum msk = 0 then original_img else composite cv original_img msk)"

text \<open>
  The whole function. Its arguments are the image and the two things the function gets
  from libraries: the colour conversions and the bin order \<open>np.argsort(hist)[::-1]\<close>.
  Reading the input and writing \<open>output_path\<close> are left out. On an image without
  pixels \<open>cv2.inRange\<close> raises \<open>cv2.error\<close> at line 175, after the detection.
\<close>

datatype error = Cv2Error

definition remove_watermark_from_image :: "cvtColor \<Rightarrow> nat list \<Rightarrow> image \<Rightarrow> error + image" where
  "remove_watermark_from_image cv sorted_indices img =
     (let watermark_color_rgb = detect_watermark_color sorted_indices
      in if concat img = [] then Inl Cv2Error
         else let msk = build_mask img watermark_color_rgb
              in Inr (process_with_mask cv img msk))"

section \<open>OpenCV's 8-bit colour conversions\<close>

text \<open>
  \<open>COLOR_BGR2HSV\<close> on uint8 data is integer arithmetic in OpenCV: V is the largest
  channel, S is 255 * (V - min) / V and H is half the hue angle (0 to 179), both through
  tables of reciprocals scaled by 2^12 and rounded.
\<close>

definition sdiv_table :: "int \<Rightarrow> int" where
  "sdiv_table i = (if i = 0 then 0 else (2 * 1044480 + i) div (2 * i))"

definition hdiv_table180 :: "int \<Rightarrow> int" where
  "hdiv_table180 i = (if i = 0 then 0 else (2 * 122880 + i) div (2 * i))"

definition hsv_value :: "pixel \<Rightarrow> int" where
  "hsv_value p = (case p of (p0, p1, p2) \<Rightarrow> max (uint p0) (max (uint p1) (uint p2)))"

definition hsv_saturation :: "pixel \<Rightarrow> int" where
  "hsv_saturation p = (case p of (p0, p1, p2) \<Rightarrow>
     let b = uint p0; g = uint p1; r = uint p2;
         v = max b (max g r);
         vmin = min b (min g r);
         diff = v - vmin
     in (diff * sdiv_table v + 2048) div 4096)"

definition hsv_hue :: "pixel \<Rightarrow> int" where
  "hsv_hue p = (case p of (p0, p1, p2) \<Rightarrow>
     let b = uint p0; g = uint p1; r = uint p2;
         v = max b (max g r);
         vmin = min b (min g r);
         diff = v - vmin;
         h = (if v = r then g - b
              else if v = g then b - r + 2 * diff
              else r - g + 4 * diff);
         h = (h * hdiv_table180 diff + 2048) div 4096
     in if h < 0 then h + 180 else h)"

definition cv_bgr2hsv :: "pixel \<Rightarrow> hsv" where
  "cv_bgr2hsv p = (word_of_int (hsv_hue p), word_of_int (hsv_saturation p), word_of_int (hsv_value p))"

text \<open>
  \<open>COLOR_HSV2BGR\<close> on uint8 data: a pixel of saturation 0 becomes (V, V, V). For the
  other pixels OpenCV evaluates the usual sector formula in single precision and rounds
  to the nearest integer; here that branch is evaluated in exact arithmetic (numerators
  over 7650 = 255 * 30), which can differ from the library by one level in a channel.
  No result below evaluates that branch: all of them use the gray branch and V only.
\<close>

definition round_half_even :: "int \<Rightarrow> int \<Rightarrow> int" where
  "round_half_even n d =
     (let q = n div d; r2 = 2 * (n mod d)
      in if r2 < d then q else if r2 > d then q + 1 else if even q then q else q + 1)"

definition cv_hsv2bgr :: "hsv \<Rightarrow> pixel" where
  "cv_hsv2bgr c = (case c of (hw, sw, vw) \<Rightarrow>
     if sw = 0 then (vw, vw, vw)
     else
       let h = uint hw; s = uint sw; v = uint vw;
           sector = (h div 30) mod 6;
           f = h mod 30;
           tab0 = vw;
           tab1 = word_of_int (round_half_even (v * (7650 - 30 * s)) 7650);
           tab2 = word_of_int (round_half_even (v * (7650 - s * f)) 7650);
           tab3 = word_of_int (round_half_even (v * (7650 - s * (30 - f))) 7650)
       in if sector = 0 then (tab1, tab3, tab0)
          else if sector = 1 then (tab1, tab0, tab2)
          else if sector = 2 then (tab3, tab0, tab1)
          else if sector = 3 then (tab0, tab2, tab1)
          else if sector = 4 then (tab0, tab1, tab3)
          else (tab2, tab1, tab0))"

definition opencv :: cvtColor where
  "opencv = \<lparr>BGR2HSV = cv_bgr2hsv, HSV2BGR = cv_hsv2bgr\<rparr>"

text \<open>The zero-saturation transform of a pixel: to HSV, saturation set to 0, and back.\<close>

definition desaturated :: "cvtColor \<Rightarrow> pixel \<Rightarrow> pixel" where
  "desaturated cv p = (case BGR2HSV cv p of (h, s, v) \<Rightarrow> HSV2BGR cv (h, 0, v))"

text \<open>The channel spread of a pixel as a number: largest channel minus smallest channel.\<close>

definition spread :: "pixel \<Rightarrow> int" where
  "spread p = (case p of (p0, p1, p2) \<Rightarrow>
     max (uint p0) (max (uint p1) (uint p2)) - min (uint p0) (min (uint p1) (uint p2)))"

text \<open>\<open>covers m\<close>: every entry of the mask is nonzero.\<close>

definition covers :: "mask \<Rightarrow> bool" where
  "covers m = list_all (list_all (\<lambda>v. v \<noteq> 0)) m"

section \<open>Facts about the detector\<close>

lemma scan_bins_Some:
  "scan_bins idxs = Some c \<Longrightarrow>
     \<exists>pre idx post. idxs = pre @ idx # post \<and> (\<forall>j\<in>set pre. \<not> passes_filters (bin_center j))
        \<and> passes_filters (bin_center idx) \<and> c = bin_center idx"
proof (induction idxs)
  case Nil
  then show ?case by simp
next
  case (Cons i rest)
  obtain r g b where rgb: "bin_center i = (r, g, b)"
    by (cases "bin_center i") auto
  show ?case
  proof (cases "passes_filters (bin_center i)")
    case True
    with Cons.prems rgb have "c = bin_center i"
      by (auto simp: passes_filters_def)
    with True have "i # rest = [] @ i # rest \<and> (\<forall>j\<in>set []. \<not> passes_filters (bin_center j))
        \<and> passes_filters (bin_center i) \<and> c = bin_center i"
      by simp
    then show ?thesis by blast
  next
    case False
    with Cons.prems rgb have "scan_bins rest = Some c"
      by (auto simp: passes_filters_def split: if_splits)
    from Cons.IH [OF this] obtain pre idx post where
      p: "rest = pre @ idx # post" "\<forall>j\<in>set pre. \<not> passes_filters (bin_center j)"
         "passes_filters (bin_center idx)" "c = bin_center idx"
      by blast
    from p False have "i # rest = (i # pre) @ idx # post
        \<and> (\<forall>j\<in>set (i # pre). \<not> passes_filters (bin_center j))
        \<and> passes_filters (bin_center idx) \<and> c = bin_center idx"
      by simp
    then show ?thesis by blast
  qed
qed

lemma scan_bins_None:
  "scan_bins idxs = None \<longleftrightarrow> (\<forall>j\<in>set idxs. \<not> passes_filters (bin_center j))"
proof (induction idxs)
  case Nil
  then show ?case by simp
next
  case (Cons i rest)
  obtain r g b where rgb: "bin_center i = (r, g, b)"
    by (cases "bin_center i") auto
  with Cons show ?case
    by (auto simp: passes_filters_def)
qed

lemma detect_cases:
  "(\<exists>pre idx post. idxs = pre @ idx # post \<and> (\<forall>j\<in>set pre. \<not> passes_filters (bin_center j))
        \<and> passes_filters (bin_center idx) \<and> detect_watermark_color idxs = bin_center idx)
   \<or> ((\<forall>j\<in>set idxs. \<not> passes_filters (bin_center j)) \<and> detect_watermark_color idxs = (230, 230, 230))"
proof (cases "scan_bins idxs")
  case None
  then have "\<forall>j\<in>set idxs. \<not> passes_filters (bin_center j)"
    by (simp add: scan_bins_None)
  with None show ?thesis
    by (simp add: detect_watermark_color_def)
next
  case (Some c)
  from scan_bins_Some [OF Some] show ?thesis
    by (simp add: detect_watermark_color_def Some)
qed

lemma sorted_rev_upt:
  "(\<And>i j. i \<le> j \<Longrightarrow> j < n \<Longrightarrow> (hist i :: 'a :: linorder) \<le> hist j)
   \<Longrightarrow> sorted_wrt (\<lambda>i j. hist j \<le> hist i) (rev [0..<n])"
  unfolding sorted_wrt_rev by (simp add: sorted_wrt_iff_nth_less)

lemma rev_upt_Suc: "rev [0..<Suc n] = n # rev [0..<n]"
  by simp

lemma rev_upt_512: "rev [0..<512] = 511 # 510 # rev [0..<510]"
proof -
  have "(512::nat) = Suc (Suc 510)" by simp
  then show ?thesis by (simp only: rev_upt_Suc) simp
qed

lemma bin_center_components:
  "bin_center idx = (int (idx div 64) * 32 + 16, int (idx div 8 mod 8) * 32 + 16, int (idx mod 8) * 32 + 16)"
  by (simp add: bin_center_def unravel_index_def)

lemma calcHist_white: "calcHist [[(255, 255, 255)]] idx = (if idx = 511 then 1 else 0)"
  by (simp add: calcHist_def bin_of_pixel_def)

lemma descending_order_white: "descending_order (calcHist [[(255, 255, 255)]]) (rev [0..<512])"
proof -
  have "sorted_wrt (\<lambda>i j. calcHist [[(255, 255, 255)]] j \<le> calcHist [[(255, 255, 255)]] i)
          (rev [0..<512])"
    by (rule sorted_rev_upt) (simp add: calcHist_white)
  moreover have "set (rev [0..<512]) = {..<512}"
    by (simp add: atLeast0LessThan)
  ultimately show ?thesis
    by (simp add: descending_order_def)
qed



section \<open>Facts about the tolerance mask\<close>

lemma map2_map_same:
  "map2 f (map g xs) (map h xs) = map (\<lambda>x. f (g x) (h x)) xs"
  by (induction xs) auto

lemma mask_add_maps:
  "mask_add (map (map g) img) (map (map h) img) = map (map (\<lambda>p. g p + h p)) img"
  by (simp add: mask_add_def map2_map_same)

lemma fold_mask_add:
  "fold (\<lambda>i msk. mask_add msk (inRange img (lower_bgr t i) (upper_bgr t i))) ms (map (map g) img)
   = map (map (\<lambda>p. fold (\<lambda>i v. v + band_value t i p) ms (g p))) img"
proof (induction ms arbitrary: g)
  case Nil
  then show ?case by simp
next
  case (Cons i ms)
  have "mask_add (map (map g) img) (inRange img (lower_bgr t i) (upper_bgr t i))
        = map (map (\<lambda>p. g p + band_value t i p)) img"
    by (simp add: inRange_def mask_add_maps band_value_def)
  then show ?case
    by (simp add: Cons.IH)
qed

lemma accumulate_mask_pointwise:
  "accumulate_mask ms img t
   = map (map (\<lambda>p. fold (\<lambda>i v. v + band_value t i p) ms (band_value t 1 p))) img"
proof -
  have "inRange img (lower_bgr t 1) (upper_bgr t 1) = map (map (band_value t 1)) img"
    by (simp add: inRange_def band_value_def)
  then show ?thesis
    by (simp add: accumulate_mask_def fold_mask_add)
qed

lemma clip_u8_le: "clip_u8 a \<le> w \<longleftrightarrow> clamp255 a \<le> uint w"
proof -
  have "uint (word_of_int (max 0 (min 255 a)) :: 8 word) = max 0 (min 255 a)"
    by (simp add: uint_word_of_int take_bit_eq_mod)
  then show ?thesis
    by (simp add: clip_u8_def clamp255_def word_le_def)
qed

lemma le_clip_u8: "w \<le> clip_u8 a \<longleftrightarrow> uint w \<le> clamp255 a"
proof -
  have "uint (word_of_int (max 0 (min 255 a)) :: 8 word) = max 0 (min 255 a)"
    by (simp add: uint_word_of_int take_bit_eq_mod)
  then show ?thesis
    by (simp add: clip_u8_def clamp255_def word_le_def)
qed

lemma band_value_in_band:
  "band_value t i p = (if in_band t i p then 255 else 0)"
  by (cases t; cases p)
     (simp add: band_value_def inRange_pixel_def lower_bgr_def upper_bgr_def in_band_def
        clip_u8_le le_clip_u8 tol_def)

lemma accumulated_value_nonzero:
  "((if b1 then 255 else 0) + (if b1 then 255 else 0) + (if b2 then 255 else 0)
      + (if b3 then 255 else (0 :: 8 word)) \<noteq> 0) = (b1 \<or> b2 \<or> b3)"
  by (cases b1; cases b2; cases b3) simp_all

text \<open>
  Claim C8. The mask accumulated by wrapping 8-bit addition (the range mask of
  multiplier 1, plus the range masks of multipliers 1, 2 and 3) is nonzero at a pixel
  exactly when the pixel lies in at least one of the three inclusive tolerance bands:
  as truth values it is the union of the three band masks.
\<close>

theorem accumulated_mask_is_union:
  "map (map (\<lambda>v. v \<noteq> 0)) (tolerance_mask img t)
   = map (map (\<lambda>p. in_band t 1 p \<or> in_band t 2 p \<or> in_band t 3 p)) img"
  by (simp add: tolerance_mask_def accumulate_mask_pointwise band_value_in_band
      accumulated_value_nonzero)


lemma selected_map:
  "selected (map (map f) img) y x \<longleftrightarrow> y < length img \<and> x < length (img ! y) \<and> f (img ! y ! x) \<noteq> 0"
  by (auto simp: selected_def)

lemma clamp255_mono: "a \<le> b \<Longrightarrow> clamp255 a \<le> clamp255 b"
  by (simp add: clamp255_def)

lemma in_band_mono:
  assumes "i \<le> j" and "in_band t i p"
  shows "in_band t j p"
proof -
  obtain t0 t1 t2 p0 p1 p2 where tp: "t = (t0, t1, t2)" "p = (p0, p1, p2)"
    by (cases t; cases p) auto
  have lo: "clamp255 (c - 80 * j) \<le> clamp255 (c - 80 * i)" for c
    using assms(1) by (intro clamp255_mono) simp
  have hi: "clamp255 (c + 80 * i) \<le> clamp255 (c + 80 * j)" for c
    using assms(1) by (intro clamp255_mono) simp
  from assms(2) show ?thesis
    unfolding tp in_band_def prod.case
    using lo [of t0] lo [of t1] lo [of t2] hi [of t0] hi [of t1] hi [of t2]
    by linarith
qed

lemma two_bands_nonzero:
  "((if b1 then 255 else 0) + (if b1 then 255 else 0) + (if b2 then 255 else (0 :: 8 word)) \<noteq> 0)
     = (b1 \<or> b2)"
  by (cases b1; cases b2) simp_all

lemma one_band_nonzero:
  "((if b1 then 255 else 0) + (if b1 then 255 else (0 :: 8 word)) \<noteq> 0) = b1"
  by (cases b1) simp_all

text \<open>
  Claim C9. For every image and target colour, the pixels selected by the mask built
  with multiplier 1 alone are selected by the mask built with multipliers 1 and 2, and
  those are selected by the mask built with multipliers 1, 2 and 3; the single range
  masks themselves widen with the multiplier.
\<close>

theorem band_masks_monotone:
  "(selected (accumulate_mask [1] img t) y x \<longrightarrow> selected (accumulate_mask [1, 2] img t) y x)
   \<and> (selected (accumulate_mask [1, 2] img t) y x \<longrightarrow> selected (tolerance_mask img t) y x)
   \<and> (selected (inRange img (lower_bgr t 1) (upper_bgr t 1)) y x
        \<longrightarrow> selected (inRange img (lower_bgr t 2) (upper_bgr t 2)) y x)
   \<and> (selected (inRange img (lower_bgr t 2) (upper_bgr t 2)) y x
        \<longrightarrow> selected (inRange img (lower_bgr t 3) (upper_bgr t 3)) y x)"
proof -
  have r: "inRange img (lower_bgr t i) (upper_bgr t i) = map (map (band_value t i)) img" for i
    by (simp add: inRange_def band_value_def)
  have m12: "in_band t 1 p \<Longrightarrow> in_band t 2 p" for p
    by (rule in_band_mono [of 1 2]) simp_all
  have m23: "in_band t 2 p \<Longrightarrow> in_band t 3 p" for p
    by (rule in_band_mono [of 2 3]) simp_all
  show ?thesis
    using m12 m23
    by (auto simp: tolerance_mask_def accumulate_mask_pointwise r selected_map band_value_in_band
          one_band_nonzero two_bands_nonzero accumulated_value_nonzero)
qed

text \<open>The theorem at a one-pixel image of colour (200, 200, 200) and target (230, 230, 230).\<close>

theorem band_masks_monotone_witness:
  "selected (accumulate_mask [1] [[(200, 200, 200)]] (230, 230, 230)) 0 0
   \<and> selected (accumulate_mask [1, 2] [[(200, 200, 200)]] (230, 230, 230)) 0 0
   \<and> selected (tolerance_mask [[(200, 200, 200)]] (230, 230, 230)) 0 0
   \<and> selected (inRange [[(200, 200, 200)]] (lower_bgr (230, 230, 230) 1) (upper_bgr (230, 230, 230) 1)) 0 0
   \<and> selected (inRange [[(200, 200, 200)]] (lower_bgr (230, 230, 230) 2) (upper_bgr (230, 230, 230) 2)) 0 0
   \<and> selected (inRange [[(200, 200, 200)]] (lower_bgr (230, 230, 230) 3) (upper_bgr (230, 230, 230) 3)) 0 0"
proof -
  have a: "selected (accumulate_mask [1] [[(200, 200, 200)]] (230, 230, 230)) 0 0"
    by (simp add: selected_def accumulate_mask_def mask_add_def inRange_def inRange_pixel_def
          lower_bgr_def upper_bgr_def clip_u8_def tol_def)
  have b: "selected (inRange [[(200, 200, 200)]] (lower_bgr (230, 230, 230) 1) (upper_bgr (230, 230, 230) 1)) 0 0"
    by (simp add: selected_def inRange_def inRange_pixel_def
          lower_bgr_def upper_bgr_def clip_u8_def tol_def)
  from a b band_masks_monotone [of "[[(200, 200, 200)]]" "(230, 230, 230)" 0 0]
  show ?thesis by blast
qed

section \<open>The channel order of the mask target\<close>





section \<open>Facts about refinement and compositing\<close>


lemma shape_iff: "shape h w a \<longleftrightarrow> length a = h \<and> (\<forall>y<h. length (a ! y) = w)"
  by (auto simp: shape_def list_all_length)

lemma length_map2d [simp]: "length (map2d f a) = length a"
  by (simp add: map2d_def)

lemma length_map2d_row [simp]: "y < length a \<Longrightarrow> length (map2d f a ! y) = length (a ! y)"
  by (simp add: map2d_def)

lemma map2d_nth [simp]:
  "y < length a \<Longrightarrow> x < length (a ! y) \<Longrightarrow> map2d f a ! y ! x = f (a ! y ! x)"
  by (simp add: map2d_def)

lemma length_zip2d [simp]: "length (zip2d a b) = min (length a) (length b)"
  by (simp add: zip2d_def)

lemma length_zip2d_row [simp]:
  "y < length a \<Longrightarrow> y < length b \<Longrightarrow> length (zip2d a b ! y) = min (length (a ! y)) (length (b ! y))"
  by (simp add: zip2d_def)

lemma zip2d_nth [simp]:
  "y < length a \<Longrightarrow> y < length b \<Longrightarrow> x < length (a ! y) \<Longrightarrow> x < length (b ! y)
   \<Longrightarrow> zip2d a b ! y ! x = (a ! y ! x, b ! y ! x)"
  by (simp add: zip2d_def)

lemma shape_map2d: "shape h w a \<Longrightarrow> shape h w (map2d f a)"
  by (simp add: shape_iff)

lemma shape_zip2d: "shape h w a \<Longrightarrow> shape h w b \<Longrightarrow> shape h w (zip2d a b)"
  by (simp add: shape_iff)

lemma shape_hsv_adjusted:
  "shape h w img \<Longrightarrow> shape h w msk \<Longrightarrow> shape h w (hsv_adjusted cv img msk)"
  by (simp add: hsv_adjusted_def shape_map2d shape_zip2d)

lemma hsv_adjusted_nth:
  assumes "shape h w img" "shape h w msk" "y < h" "x < w"
  shows "hsv_adjusted cv img msk ! y ! x =
     (case BGR2HSV cv (img ! y ! x) of (hh, s, v) \<Rightarrow>
        if msk ! y ! x \<noteq> 0 then (hh, 0, v) else (hh, s, v))"
  using assms
  by (simp add: hsv_adjusted_def shape_iff word_neq_0_conv split: prod.splits)

lemma shape_refined_mask:
  "shape h w img \<Longrightarrow> shape h w msk \<Longrightarrow> shape h w (refined_mask cv img msk)"
  by (simp add: refined_mask_def shape_map2d shape_zip2d shape_hsv_adjusted)

lemma refined_mask_nth:
  assumes "shape h w img" "shape h w msk" "y < h" "x < w"
  shows "refined_mask cv img msk ! y ! x =
     (case hsv_adjusted cv img msk ! y ! x of (hh, s, v) \<Rightarrow>
        if s > 30 \<or> v < 175 then 0 else msk ! y ! x)"
proof -
  from assms have "shape h w (hsv_adjusted cv img msk)"
    by (simp add: shape_hsv_adjusted)
  with assms show ?thesis
    by (simp add: refined_mask_def shape_iff split: prod.splits)
qed

lemma shape_text_mask:
  "shape h w img \<Longrightarrow> shape h w msk \<Longrightarrow> shape h w (text_mask cv img msk)"
  by (simp add: text_mask_def shape_map2d shape_zip2d shape_refined_mask)

lemma text_mask_nth:
  assumes "shape h w img" "shape h w msk" "y < h" "x < w"
  shows "text_mask cv img msk ! y ! x = msk ! y ! x AND NOT (refined_mask cv img msk ! y ! x)"
proof -
  from assms have "shape h w (refined_mask cv img msk)"
    by (simp add: shape_refined_mask)
  with assms show ?thesis
    by (simp add: text_mask_def shape_iff)
qed

lemma shape_assign_where:
  "shape h w sel \<Longrightarrow> shape h w src \<Longrightarrow> shape h w dst \<Longrightarrow> shape h w (assign_where sel src dst)"
  by (simp add: assign_where_def shape_map2d shape_zip2d)

lemma assign_where_nth:
  assumes "shape h w sel" "shape h w src" "shape h w dst" "y < h" "x < w"
  shows "assign_where sel src dst ! y ! x = (if sel ! y ! x \<noteq> 0 then src ! y ! x else dst ! y ! x)"
  using assms
  by (simp add: assign_where_def shape_iff word_neq_0_conv)

lemma refined_mask_cases:
  assumes "shape h w img" "shape h w msk" "y < h" "x < w"
  shows "refined_mask cv img msk ! y ! x = msk ! y ! x \<or> refined_mask cv img msk ! y ! x = 0"
  using assms by (simp add: refined_mask_nth split: prod.splits)

lemma text_mask_cases:
  assumes "shape h w img" "shape h w msk" "y < h" "x < w"
  shows "text_mask cv img msk ! y ! x =
     (if refined_mask cv img msk ! y ! x = 0 then msk ! y ! x else 0)"
  using assms refined_mask_cases [OF assms, of cv]
  by (auto simp: text_mask_nth)


lemma length_set_pixel [simp]: "length (set_pixel r y' x' v) = length r"
  by (simp add: set_pixel_def)

lemma length_set_pixel_row [simp]: "length (set_pixel r y' x' v ! y) = length (r ! y)"
  by (cases "y' < length r"; cases "y = y'") (simp_all add: set_pixel_def list_update_beyond)

lemma set_pixel_nth:
  "y' < length r \<Longrightarrow> x' < length (r ! y') \<Longrightarrow>
   set_pixel r y' x' v ! y ! x = (if y = y' \<and> x = x' then v else r ! y ! x)"
  by (cases "y = y'"; cases "x = x'") (simp_all add: set_pixel_def)

lemma length_fold_set_pixel [simp]:
  "length (fold (\<lambda>c r. if g c then set_pixel r (fst c) (snd c) v else r) cs r) = length r"
  by (induction cs arbitrary: r) simp_all

lemma length_fold_set_pixel_row [simp]:
  "length (fold (\<lambda>c r. if g c then set_pixel r (fst c) (snd c) v else r) cs r ! y) = length (r ! y)"
  by (induction cs arbitrary: r) simp_all

lemma fold_set_pixel_nth:
  assumes "\<forall>c\<in>set cs. fst c < length r \<and> snd c < length (r ! fst c)"
  shows "fold (\<lambda>c r. if g c then set_pixel r (fst c) (snd c) v else r) cs r ! y ! x
         = (if (y, x) \<in> set cs \<and> g (y, x) then v else r ! y ! x)"
  using assms
proof (induction cs arbitrary: r)
  case Nil
  then show ?case by simp
next
  case (Cons c cs)
  let ?r' = "if g c then set_pixel r (fst c) (snd c) v else r"
  have b: "\<forall>d\<in>set cs. fst d < length ?r' \<and> snd d < length (?r' ! fst d)"
    using Cons.prems by simp
  have c: "fst c < length r" "snd c < length (r ! fst c)"
    using Cons.prems by simp_all
  have "fold (\<lambda>c r. if g c then set_pixel r (fst c) (snd c) v else r) (c # cs) r ! y ! x
        = (if (y, x) \<in> set cs \<and> g (y, x) then v else ?r' ! y ! x)"
    using Cons.IH [OF b] by simp
  also have "\<dots> = (if (y, x) \<in> set (c # cs) \<and> g (y, x) then v else r ! y ! x)"
    using c by (cases c) (auto simp: set_pixel_nth)
  finally show ?case .
qed

lemma fold_enumerate_coords:
  assumes "\<forall>j<length cs. ys ! (k + j) = fst (cs ! j) \<and> xs ! (k + j) = snd (cs ! j)"
  shows "fold (\<lambda>(i, b) r. if b then set_pixel r (ys ! i) (xs ! i) v else r)
           (enumerate k (map g cs)) r
         = fold (\<lambda>c r. if g c then set_pixel r (fst c) (snd c) v else r) cs r"
  using assms
proof (induction cs arbitrary: k r)
  case Nil
  then show ?case by simp
next
  case (Cons c cs)
  from Cons.prems have h: "ys ! k = fst c" "xs ! k = snd c"
    by auto
  have "\<forall>j<length cs. ys ! (Suc k + j) = fst (cs ! j) \<and> xs ! (Suc k + j) = snd (cs ! j)"
  proof (intro allI impI)
    fix j assume "j < length cs"
    then have "Suc j < length (c # cs)" by simp
    with Cons.prems have "ys ! (k + Suc j) = fst ((c # cs) ! Suc j)
        \<and> xs ! (k + Suc j) = snd ((c # cs) ! Suc j)"
      by blast
    then show "ys ! (Suc k + j) = fst (cs ! j) \<and> xs ! (Suc k + j) = snd (cs ! j)"
      by simp
  qed
  from Cons.IH [OF this] h show ?case
    by simp
qed

lemma where_nonzero_iff:
  "(y, x) \<in> set (where_nonzero m) \<longleftrightarrow> y < length m \<and> x < length (m ! y) \<and> m ! y ! x \<noteq> 0"
  by (auto simp: where_nonzero_def word_neq_0_conv)

lemma filter_zip_index:
  "length xs = length ys \<Longrightarrow>
   map fst (filter (\<lambda>(p, v). P v) (zip xs ys))
   = map (\<lambda>i. xs ! i) (filter (\<lambda>i. P (ys ! i)) [0..<length ys])"
proof (induction xs ys rule: list_induct2)
  case Nil
  then show ?case by simp
next
  case (Cons x xs y ys)
  have "[0..<length (y # ys)] = 0 # map Suc [0..<length ys]"
    by (simp add: upt_conv_Cons map_Suc_upt del: upt_Suc)
  then show ?case
    using Cons.IH by (simp add: filter_map o_def del: upt_Suc)
qed

lemma map2_index:
  "length xs = length ys \<Longrightarrow> map2 f xs ys = map (\<lambda>i. f (xs ! i) (ys ! i)) [0..<length ys]"
  by (rule nth_equalityI) simp_all

lemma boolean_index_where:
  assumes "shape h w img" "shape h w m"
  shows "boolean_index img m = map (\<lambda>(y, x). img ! y ! x) (where_nonzero m)"
proof -
  from assms have len: "length img = length m" and lh: "length m = h"
    and rows: "\<And>y. y < h \<Longrightarrow> length (img ! y) = length (m ! y)"
    by (simp_all add: shape_iff)
  have row: "map fst (filter (\<lambda>(p, v). v > 0) (zip (img ! y) (m ! y)))
             = map (\<lambda>x. img ! y ! x) (filter (\<lambda>x. m ! y ! x > 0) [0..<length (m ! y)])"
    if "y < h" for y
    using filter_zip_index [OF rows [OF that], of "\<lambda>v. v > 0"] .
  have "boolean_index img m
        = concat (map (\<lambda>y. map fst (filter (\<lambda>(p, v). v > 0) (zip (img ! y) (m ! y)))) [0..<length m])"
    by (simp add: boolean_index_def map2_index [OF len])
  also have "\<dots> = concat (map (\<lambda>y. map (\<lambda>x. img ! y ! x)
                       (filter (\<lambda>x. m ! y ! x > 0) [0..<length (m ! y)])) [0..<length m])"
    using row lh by (intro arg_cong [where f = concat] map_cong) simp_all
  also have "\<dots> = map (\<lambda>(y, x). img ! y ! x) (where_nonzero m)"
    by (simp add: where_nonzero_def map_concat o_def)
  finally show ?thesis .
qed

lemma whiten_eq:
  assumes "shape h w img" "shape h w refined"
  shows "whiten img refined result
         = fold (\<lambda>c r. if color_diff (img ! fst c ! snd c) \<ge> 50
                       then set_pixel r (fst c) (snd c) (255, 255, 255) else r)
             (where_nonzero refined) result"
proof -
  have k: "map (\<lambda>d. d \<ge> 50) (map color_diff (boolean_index img refined))
           = map (\<lambda>c. color_diff (img ! fst c ! snd c) \<ge> 50) (where_nonzero refined)"
    by (simp add: boolean_index_where [OF assms] case_prod_beta)
  show ?thesis
    unfolding whiten_def Let_def k
    by (rule fold_enumerate_coords) simp
qed

lemma whiten_nth:
  assumes "shape h w img" "shape h w refined" "shape h w result"
  shows "whiten img refined result ! y ! x
         = (if y < h \<and> x < w \<and> refined ! y ! x \<noteq> 0 \<and> color_diff (img ! y ! x) \<ge> 50
            then (255, 255, 255) else result ! y ! x)"
proof -
  have b: "\<forall>c\<in>set (where_nonzero refined). fst c < length result \<and> snd c < length (result ! fst c)"
    using assms(2,3) by (auto simp: where_nonzero_iff shape_iff)
  show ?thesis
    using assms(2)
    by (simp add: whiten_eq [OF assms(1,2)] fold_set_pixel_nth [OF b] where_nonzero_iff shape_iff)
       auto
qed

lemma shape_whiten:
  assumes "shape h w img" "shape h w refined" "shape h w result"
  shows "shape h w (whiten img refined result)"
  using assms(3) by (simp add: whiten_eq [OF assms(1,2)] shape_iff)


lemma shape_composite:
  assumes "shape h w img" "shape h w msk"
  shows "shape h w (composite cv img msk)"
proof -
  have "shape h w (map2d (HSV2BGR cv) (hsv_adjusted cv img msk))"
    using assms by (simp add: shape_map2d shape_hsv_adjusted)
  then have "shape h w (assign_where (text_mask cv img msk) img
      (map2d (HSV2BGR cv) (hsv_adjusted cv img msk)))"
    using assms by (simp add: shape_assign_where shape_text_mask)
  then show ?thesis
    using assms by (simp add: composite_def shape_whiten shape_refined_mask)
qed

lemma composite_nth:
  assumes "shape h w img" "shape h w msk" "y < h" "x < w"
  shows "composite cv img msk ! y ! x =
     (if refined_mask cv img msk ! y ! x \<noteq> 0 \<and> color_diff (img ! y ! x) \<ge> 50
      then (255, 255, 255)
      else if text_mask cv img msk ! y ! x \<noteq> 0 then img ! y ! x
      else HSV2BGR cv (hsv_adjusted cv img msk ! y ! x))"
proof -
  let ?res = "map2d (HSV2BGR cv) (hsv_adjusted cv img msk)"
  have a: "shape h w (hsv_adjusted cv img msk)"
    using assms by (simp add: shape_hsv_adjusted)
  have s1: "shape h w ?res"
    using a by (simp add: shape_map2d)
  have r1: "?res ! y ! x = HSV2BGR cv (hsv_adjusted cv img msk ! y ! x)"
    using a assms(3,4) by (simp add: shape_iff)
  have s2: "shape h w (assign_where (text_mask cv img msk) img ?res)"
    using assms s1 by (simp add: shape_assign_where shape_text_mask)
  have r2: "assign_where (text_mask cv img msk) img ?res ! y ! x
            = (if text_mask cv img msk ! y ! x \<noteq> 0 then img ! y ! x
               else HSV2BGR cv (hsv_adjusted cv img msk ! y ! x))"
    using assign_where_nth [OF shape_text_mask [OF assms(1,2)] assms(1) s1 assms(3,4), of cv]
    by (simp add: r1)
  have s3: "shape h w (refined_mask cv img msk)"
    using assms by (simp add: shape_refined_mask)
  show ?thesis
    using assms(3,4)
    by (simp add: composite_def whiten_nth [OF assms(1) s3 s2] r2)
qed

lemma uint_max_word: "uint (max a b) = max (uint a) (uint b)" for a b :: "8 word"
  by (simp add: max_def word_le_def)

lemma uint_min_word: "uint (min a b) = min (uint a) (uint b)" for a b :: "8 word"
  by (simp add: min_def word_le_def)

lemma uint_color_diff: "uint (color_diff p) = spread p"
proof -
  obtain p0 p1 p2 where p: "p = (p0, p1, p2)"
    by (cases p) auto
  define mx where "mx = max p0 (max p1 p2)"
  define mn where "mn = min p0 (min p1 p2)"
  have "mn \<le> p0" "p0 \<le> mx"
    by (simp_all add: mx_def mn_def)
  then have "mn \<le> mx"
    by (rule order_trans)
  then have "uint (mx - mn) = uint mx - uint mn"
    by (rule uint_minus_simple_alt [THEN iffD1])
  moreover have "uint mx = max (uint p0) (max (uint p1) (uint p2))"
    by (simp add: mx_def uint_max_word)
  moreover have "uint mn = min (uint p0) (min (uint p1) (uint p2))"
    by (simp add: mn_def uint_min_word)
  ultimately show ?thesis
    by (simp add: p color_diff_def spread_def mx_def mn_def)
qed

lemma color_diff_ge_50: "color_diff p \<ge> 50 \<longleftrightarrow> spread p \<ge> 50"
  by (simp add: word_le_def uint_color_diff)

lemma word_of_int_max_uint: "word_of_int (max (uint a) (uint b)) = max a b" for a b :: "8 word"
  by (simp add: max_def word_le_def)

lemma desaturated_opencv:
  "desaturated opencv (p0, p1, p2)
   = (max p0 (max p1 p2), max p0 (max p1 p2), max p0 (max p1 p2))"
proof -
  have "word_of_int (max (uint p0) (max (uint p1) (uint p2))) = max p0 (max p1 p2)"
    by (simp add: word_of_int_max_uint uint_max_word [symmetric])
  then show ?thesis
    by (simp add: desaturated_def opencv_def cv_bgr2hsv_def cv_hsv2bgr_def hsv_value_def)
qed

lemma mask_sum_zero_iff: "mask_sum m = 0 \<longleftrightarrow> (\<forall>y x. \<not> selected m y x)"
proof -
  have "mask_sum m = 0 \<longleftrightarrow> (\<forall>row\<in>set m. \<forall>v\<in>set row. v = 0)"
    by (auto simp: mask_sum_def unat_eq_0)
  also have "\<dots> \<longleftrightarrow> (\<forall>y<length m. \<forall>x<length (m ! y). m ! y ! x = 0)"
    by (simp add: all_set_conv_all_nth)
  also have "\<dots> \<longleftrightarrow> (\<forall>y x. \<not> selected m y x)"
    by (auto simp: selected_def)
  finally show ?thesis .
qed

lemma selected_shape:
  "shape h w m \<Longrightarrow> selected m y x \<longleftrightarrow> y < h \<and> x < w \<and> m ! y ! x \<noteq> 0"
  by (auto simp: selected_def shape_iff)

text \<open>
  Claim C1. At every pixel selected by the refined mask the output is pure white
  (255, 255, 255) when the original pixel's channel spread (largest minus smallest channel)
  is at least 50, and otherwise the zero-saturation transform of the original pixel:
  converted to HSV, saturation set to 0, converted back. With OpenCV's conversions that
  transform keeps the value: it is (V, V, V) for V the largest channel.
\<close>

theorem refined_pixels_whitened_or_desaturated:
  assumes "shape h w img" "shape h w msk" "selected (refined_mask cv img msk) y x"
  shows "process_with_mask cv img msk ! y ! x
           = (if spread (img ! y ! x) \<ge> 50 then (255, 255, 255) else desaturated cv (img ! y ! x))
       \<and> (case img ! y ! x of (p0, p1, p2) \<Rightarrow>
            desaturated opencv (img ! y ! x)
            = (max p0 (max p1 p2), max p0 (max p1 p2), max p0 (max p1 p2)))"
proof -
  have sr: "shape h w (refined_mask cv img msk)"
    using assms by (simp add: shape_refined_mask)
  from assms(3) have b: "y < h" "x < w" and r: "refined_mask cv img msk ! y ! x \<noteq> 0"
    by (simp_all add: selected_shape [OF sr])
  from r refined_mask_cases [OF assms(1,2) b, of cv]
  have m: "msk ! y ! x \<noteq> 0"
    by auto
  then have "selected msk y x"
    using b by (simp add: selected_shape [OF assms(2)])
  then have nz: "mask_sum msk \<noteq> 0"
    by (auto simp: mask_sum_zero_iff)
  have t: "text_mask cv img msk ! y ! x = 0"
    using r by (simp add: text_mask_cases [OF assms(1,2) b])
  have d: "HSV2BGR cv (hsv_adjusted cv img msk ! y ! x) = desaturated cv (img ! y ! x)"
    using m by (simp add: hsv_adjusted_nth [OF assms(1,2) b] desaturated_def split: prod.splits)
  have "process_with_mask cv img msk ! y ! x
        = (if spread (img ! y ! x) \<ge> 50 then (255, 255, 255) else desaturated cv (img ! y ! x))"
    using nz r t d
    by (simp add: process_with_mask_def composite_nth [OF assms(1,2) b] color_diff_ge_50)
  then show ?thesis
    by (cases "img ! y ! x") (simp add: desaturated_opencv)
qed

text \<open>The theorem at a bright pixel of spread 45 under a full mask: the output is gray.\<close>

theorem refined_pixels_whitened_or_desaturated_witness:
  "shape 1 3 [[(250, 180, 255), (200, 200, 245), (30, 30, 30) :: pixel]]
   \<and> shape 1 3 [[255, 255, 255 :: 8 word]]
   \<and> selected (refined_mask opencv [[(250, 180, 255), (200, 200, 245), (30, 30, 30)]]
        [[255, 255, 255]]) 0 1
   \<and> process_with_mask opencv [[(250, 180, 255), (200, 200, 245), (30, 30, 30)]]
        [[255, 255, 255]] ! 0 ! 1 = (245, 245, 245)"
proof -
  have s1: "shape 1 3 [[(250, 180, 255), (200, 200, 245), (30, 30, 30) :: pixel]]"
    by code_simp
  have s2: "shape 1 3 [[255, 255, 255 :: 8 word]]"
    by code_simp
  have r: "selected (refined_mask opencv [[(250, 180, 255), (200, 200, 245), (30, 30, 30)]]
        [[255, 255, 255]]) 0 1"
    by code_simp
  have sp: "spread ([[(250, 180, 255), (200, 200, 245), (30, 30, 30)]] ! 0 ! 1) = 45"
    by code_simp
  have d: "desaturated opencv ([[(250, 180, 255), (200, 200, 245), (30, 30, 30)]] ! 0 ! 1)
           = (245, 245, 245)"
    by code_simp
  from refined_pixels_whitened_or_desaturated [OF s1 s2 r]
  have "process_with_mask opencv [[(250, 180, 255), (200, 200, 245), (30, 30, 30)]]
        [[255, 255, 255]] ! 0 ! 1 = (245, 245, 245)"
    by (simp only: sp d) simp
  with s1 s2 r show ?thesis by blast
qed

text \<open>
  Claim C2. At every pixel selected by the text mask (mask pixels that the refined mask
  leaves out) the output pixel is the original pixel.
\<close>

theorem text_pixels_preserved:
  assumes "shape h w img" "shape h w msk" "selected (text_mask cv img msk) y x"
  shows "process_with_mask cv img msk ! y ! x = img ! y ! x"
proof -
  have st: "shape h w (text_mask cv img msk)"
    using assms by (simp add: shape_text_mask)
  from assms(3) have b: "y < h" "x < w" and t: "text_mask cv img msk ! y ! x \<noteq> 0"
    by (simp_all add: selected_shape [OF st])
  from t have r: "refined_mask cv img msk ! y ! x = 0" and m: "msk ! y ! x \<noteq> 0"
    by (auto simp: text_mask_cases [OF assms(1,2) b] split: if_splits)
  from m have "selected msk y x"
    using b by (simp add: selected_shape [OF assms(2)])
  then have nz: "mask_sum msk \<noteq> 0"
    by (auto simp: mask_sum_zero_iff)
  show ?thesis
    using nz r t by (simp add: process_with_mask_def composite_nth [OF assms(1,2) b])
qed

text \<open>The theorem at a dark pixel (value 30, below 175) under a full mask.\<close>

theorem text_pixels_preserved_witness:
  "shape 1 3 [[(250, 180, 255), (200, 200, 245), (30, 30, 30) :: pixel]]
   \<and> shape 1 3 [[255, 255, 255 :: 8 word]]
   \<and> selected (text_mask opencv [[(250, 180, 255), (200, 200, 245), (30, 30, 30)]]
        [[255, 255, 255]]) 0 2
   \<and> process_with_mask opencv [[(250, 180, 255), (200, 200, 245), (30, 30, 30)]]
        [[255, 255, 255]] ! 0 ! 2 = (30, 30, 30)"
proof -
  have s1: "shape 1 3 [[(250, 180, 255), (200, 200, 245), (30, 30, 30) :: pixel]]"
    by code_simp
  have s2: "shape 1 3 [[255, 255, 255 :: 8 word]]"
    by code_simp
  have t: "selected (text_mask opencv [[(250, 180, 255), (200, 200, 245), (30, 30, 30)]]
        [[255, 255, 255]]) 0 2"
    by code_simp
  from s1 s2 t text_pixels_preserved [OF s1 s2 t] show ?thesis
    by simp
qed

text \<open>
  Claim C5. For an image and a mask of the same shape, every pixel selected by the
  refined mask is selected by the mask, no pixel is selected by both the refined mask
  and the text mask, and a pixel is selected by the mask exactly when it is selected
  by the refined mask or by the text mask.
\<close>

theorem refined_and_text_partition_mask:
  assumes "shape h w img" "shape h w msk"
  shows "(selected (refined_mask cv img msk) y x \<longrightarrow> selected msk y x)
       \<and> \<not> (selected (refined_mask cv img msk) y x \<and> selected (text_mask cv img msk) y x)
       \<and> (selected msk y x \<longleftrightarrow>
            selected (refined_mask cv img msk) y x \<or> selected (text_mask cv img msk) y x)"
proof (cases "y < h \<and> x < w")
  case True
  then have b: "y < h" "x < w" by simp_all
  show ?thesis
    using refined_mask_cases [OF assms b, of cv] b
    by (auto simp: selected_shape [OF assms(2)]
          selected_shape [OF shape_refined_mask [OF assms]]
          selected_shape [OF shape_text_mask [OF assms]]
          text_mask_cases [OF assms b])
next
  case False
  then show ?thesis
    by (auto simp: selected_shape [OF assms(2)]
          selected_shape [OF shape_refined_mask [OF assms]]
          selected_shape [OF shape_text_mask [OF assms]])
qed

text \<open>The theorem at a pixel of the refined mask.\<close>

theorem refined_and_text_partition_mask_witness:
  "shape 1 3 [[(250, 180, 255), (200, 200, 245), (30, 30, 30) :: pixel]]
   \<and> shape 1 3 [[255, 255, 255 :: 8 word]]
   \<and> selected (refined_mask opencv [[(250, 180, 255), (200, 200, 245), (30, 30, 30)]]
        [[255, 255, 255]]) 0 1
   \<and> selected [[255, 255, 255]] 0 1
   \<and> \<not> selected (text_mask opencv [[(250, 180, 255), (200, 200, 245), (30, 30, 30)]]
        [[255, 255, 255]]) 0 1"
proof -
  have s1: "shape 1 3 [[(250, 180, 255), (200, 200, 245), (30, 30, 30) :: pixel]]"
    by code_simp
  have s2: "shape 1 3 [[255, 255, 255 :: 8 word]]"
    by code_simp
  have r: "selected (refined_mask opencv [[(250, 180, 255), (200, 200, 245), (30, 30, 30)]]
        [[255, 255, 255]]) 0 1"
    by code_simp
  from s1 s2 r refined_and_text_partition_mask [OF s1 s2, of opencv 0 1] show ?thesis
    by blast
qed

text \<open>
  What lines 188 to 242 do with a mask that leaves a pixel out: the pixel goes to HSV and
  back, and nothing is written to it afterwards.
\<close>

lemma unmasked_pixels_round_trip:
  assumes "shape h w img" "shape h w msk" "y < h" "x < w" "msk ! y ! x = 0"
    and "mask_sum msk \<noteq> 0"
  shows "process_with_mask cv img msk ! y ! x = HSV2BGR cv (BGR2HSV cv (img ! y ! x))"
proof -
  have r: "refined_mask cv img msk ! y ! x = 0"
    using refined_mask_cases [OF assms(1-4), of cv] assms(5) by auto
  have t: "text_mask cv img msk ! y ! x = 0"
    using r assms(5) by (simp add: text_mask_cases [OF assms(1-4)])
  show ?thesis
    using assms(5,6) r t
    by (simp add: process_with_mask_def composite_nth [OF assms(1-4)]
          hsv_adjusted_nth [OF assms(1-4)] split: prod.splits)
qed

text \<open>
  Claim C4. When the mask that comes out of closing and dilation selects no pixel, the
  result is the input image itself, whatever the colour conversions are: they are not
  consulted, and neither refinement nor compositing takes place. The statement is about
  lines 188 to 192 and any mask given to them.
\<close>

theorem empty_mask_returns_input:
  assumes "\<forall>y x. \<not> selected msk y x"
  shows "process_with_mask cv original_img msk = original_img"
  using assms by (simp add: process_with_mask_def mask_sum_zero_iff)

text \<open>The theorem at a mask of zeros.\<close>

theorem empty_mask_returns_input_witness:
  "(\<forall>y x. \<not> selected [[0, 0, 0]] y x)
   \<and> process_with_mask opencv [[(250, 180, 255), (200, 200, 245), (30, 30, 30)]] [[0, 0, 0]]
       = [[(250, 180, 255), (200, 200, 245), (30, 30, 30)]]"
proof -
  have e: "\<forall>y x. \<not> selected [[0, 0, 0]] y x"
    by (auto simp: selected_def nth_Cons split: nat.splits)
  from e empty_mask_returns_input [OF e] show ?thesis
    by blast
qed

section \<open>The mask of the whole function\<close>

text \<open>
  The band of multiplier 3 reaches 240 levels to either side of the target, and every
  target the detector can return lies between 16 and 240 in each channel: that band is
  the whole colour cube. Closing and dilation keep nonzero entries nonzero, so the mask
  of the whole function selects every pixel.
\<close>


lemma covers_iff: "covers m \<longleftrightarrow> (\<forall>y<length m. \<forall>x<length (m ! y). m ! y ! x \<noteq> 0)"
  by (simp add: covers_def list_all_length)

lemma length_dilate_once [simp]: "length (dilate_once m) = length m"
  by (simp add: dilate_once_def)

lemma length_dilate_once_row [simp]:
  "y < length m \<Longrightarrow> length (dilate_once m ! y) = length (m ! y)"
  by (simp add: dilate_once_def)

lemma dilate_once_nth:
  "y < length m \<Longrightarrow> x < length (m ! y) \<Longrightarrow>
   dilate_once m ! y ! x = fold max (neighbourhood m y x) 0"
  by (simp add: dilate_once_def)

lemma length_erode_once [simp]: "length (erode_once m) = length m"
  by (simp add: erode_once_def)

lemma length_erode_once_row [simp]:
  "y < length m \<Longrightarrow> length (erode_once m ! y) = length (m ! y)"
  by (simp add: erode_once_def)

lemma erode_once_nth:
  "y < length m \<Longrightarrow> x < length (m ! y) \<Longrightarrow>
   erode_once m ! y ! x = fold min (neighbourhood m y x) 255"
  by (simp add: erode_once_def)

lemma centre_in_neighbourhood:
  assumes "y < length m" "x < length (m ! y)"
  shows "m ! y ! x \<in> set (neighbourhood m y x)"
proof -
  have k: "(0, 0) \<in> set kernel"
    by (simp add: kernel_def)
  have i: "in_image m (int y + 0) (int x + 0)"
    using assms by (simp add: in_image_def)
  from k i have "(0, 0) \<in> set (filter (\<lambda>(dy, dx). in_image m (int y + dy) (int x + dx)) kernel)"
    by simp
  then have "(\<lambda>(dy, dx). m ! nat (int y + dy) ! nat (int x + dx)) (0, 0)
             \<in> set (neighbourhood m y x)"
    unfolding neighbourhood_def set_map by (rule imageI)
  then show ?thesis by simp
qed

lemma neighbourhood_entries:
  assumes "v \<in> set (neighbourhood m y x)"
  shows "\<exists>yy xx. yy < length m \<and> xx < length (m ! yy) \<and> v = m ! yy ! xx"
proof -
  from assms obtain dy dx where
    i: "in_image m (int y + dy) (int x + dx)" and
    v: "v = m ! nat (int y + dy) ! nat (int x + dx)"
    by (auto simp: neighbourhood_def)
  from i have "nat (int y + dy) < length m"
    "nat (int x + dx) < length (m ! nat (int y + dy))"
    unfolding in_image_def by linarith+
  with v show ?thesis by blast
qed

lemma fold_max_ge: "v \<in> set xs \<Longrightarrow> v \<le> fold max xs (a :: 'a :: linorder)"
proof -
  assume "v \<in> set xs"
  then have "v \<le> Max (set (a # xs))"
    by (intro Max_ge) simp_all
  then show ?thesis
    by (simp only: Max.set_eq_fold)
qed

lemma fold_min_in: "fold min xs (a :: 'a :: linorder) \<in> set (a # xs)"
proof -
  have "Min (set (a # xs)) \<in> set (a # xs)"
    by (intro Min_in) simp_all
  then show ?thesis
    by (simp only: Min.set_eq_fold)
qed

lemma covers_dilate_once:
  assumes "covers m"
  shows "covers (dilate_once m)"
  unfolding covers_iff
proof (intro allI impI)
  fix y x
  assume "y < length (dilate_once m)" and "x < length (dilate_once m ! y)"
  then have b: "y < length m" "x < length (m ! y)"
    by simp_all
  with assms have nz: "m ! y ! x \<noteq> 0"
    by (simp add: covers_iff)
  have "m ! y ! x \<le> fold max (neighbourhood m y x) 0"
    using centre_in_neighbourhood [OF b] by (rule fold_max_ge)
  with nz have "fold max (neighbourhood m y x) 0 \<noteq> 0"
    by auto
  then show "dilate_once m ! y ! x \<noteq> 0"
    by (simp add: dilate_once_nth b)
qed

lemma covers_erode_once:
  assumes "covers m"
  shows "covers (erode_once m)"
  unfolding covers_iff
proof (intro allI impI)
  fix y x
  assume "y < length (erode_once m)" and "x < length (erode_once m ! y)"
  then have b: "y < length m" "x < length (m ! y)"
    by simp_all
  have "fold min (neighbourhood m y x) 255 \<in> set (255 # neighbourhood m y x)"
    by (rule fold_min_in)
  moreover have "v \<noteq> 0" if "v \<in> set (neighbourhood m y x)" for v
  proof -
    from neighbourhood_entries [OF that] obtain yy xx where
      "yy < length m" "xx < length (m ! yy)" "v = m ! yy ! xx"
      by blast
    with assms show ?thesis
      by (simp add: covers_iff)
  qed
  ultimately have "fold min (neighbourhood m y x) 255 \<noteq> 0"
    by auto
  then show "erode_once m ! y ! x \<noteq> 0"
    by (simp add: erode_once_nth b)
qed

lemma covers_dilate: "covers m \<Longrightarrow> covers (dilate m n)"
  by (induction n) (simp_all add: dilate_def covers_dilate_once)

lemma shape_dilate_once: "shape h w m \<Longrightarrow> shape h w (dilate_once m)"
  by (simp add: shape_iff)

lemma shape_erode_once: "shape h w m \<Longrightarrow> shape h w (erode_once m)"
  by (simp add: shape_iff)

lemma shape_dilate: "shape h w m \<Longrightarrow> shape h w (dilate m n)"
  by (induction n) (simp_all add: dilate_def shape_dilate_once)

lemma shape_tolerance_mask: "shape h w img \<Longrightarrow> shape h w (tolerance_mask img t)"
  by (simp add: tolerance_mask_def accumulate_mask_pointwise shape_iff)

lemma shape_build_mask: "shape h w img \<Longrightarrow> shape h w (build_mask img c)"
  by (simp add: build_mask_def morph_close_def shape_dilate shape_erode_once shape_dilate_once
      shape_tolerance_mask)

lemma widest_band_is_everything:
  assumes "15 \<le> t0" "t0 \<le> 240" "15 \<le> t1" "t1 \<le> 240" "15 \<le> t2" "t2 \<le> 240"
  shows "in_band (t0, t1, t2) 3 p"
proof -
  obtain p0 p1 p2 where p: "p = (p0, p1, p2)"
    by (cases p) auto
  have u: "0 \<le> uint w \<and> uint w \<le> 255" for w :: "8 word"
    using uint_lt2p [of w] by simp
  have lo: "clamp255 (t - 240) = 0" if "t \<le> 240" for t
    using that by (simp add: clamp255_def)
  have hi: "clamp255 (t + 240) = 255" if "15 \<le> t" for t
    using that by (simp add: clamp255_def)
  show ?thesis
    using assms u [of p0] u [of p1] u [of p2]
    by (simp add: p in_band_def lo hi)
qed

lemma covers_tolerance_mask:
  assumes "15 \<le> t0" "t0 \<le> 240" "15 \<le> t1" "t1 \<le> 240" "15 \<le> t2" "t2 \<le> 240"
  shows "covers (tolerance_mask img (t0, t1, t2))"
proof -
  have "map (map (\<lambda>v. v \<noteq> 0)) (tolerance_mask img (t0, t1, t2))
        = map (map (\<lambda>p. True)) img"
    by (simp add: tolerance_mask_def accumulate_mask_pointwise band_value_in_band
      accumulated_value_nonzero widest_band_is_everything [OF assms])
  then have "list_all (list_all (\<lambda>b. b)) (map (map (\<lambda>v. v \<noteq> 0)) (tolerance_mask img (t0, t1, t2)))"
    by (simp add: list_all_iff)
  then show ?thesis
    by (simp add: covers_def list_all_iff)
qed

lemma bin_center_bounds:
  assumes "idx < 512" "bin_center idx = (r, g, b)"
  shows "16 \<le> r \<and> r \<le> 240 \<and> 16 \<le> g \<and> g \<le> 240 \<and> 16 \<le> b \<and> b \<le> 240"
proof -
  from assms(1) have "idx div 64 < 8" by simp
  moreover have "idx div 8 mod 8 < 8" "idx mod 8 < 8" by simp_all
  ultimately show ?thesis
    using assms(2) by (auto simp: bin_center_components)
qed

lemma detect_bounds:
  assumes "set idxs \<subseteq> {..<512}" "detect_watermark_color idxs = (r, g, b)"
  shows "16 \<le> r \<and> r \<le> 240 \<and> 16 \<le> g \<and> g \<le> 240 \<and> 16 \<le> b \<and> b \<le> 240"
proof (cases "scan_bins idxs")
  case None
  with assms(2) show ?thesis
    by (simp add: detect_watermark_color_def)
next
  case (Some c)
  from scan_bins_Some [OF Some] obtain pre idx post where
    "idxs = pre @ idx # post" "c = bin_center idx"
    by blast
  then have "idx \<in> set idxs" "c = bin_center idx"
    by simp_all
  with assms Some have "idx < 512" "bin_center idx = (r, g, b)"
    by (auto simp: detect_watermark_color_def)
  then show ?thesis by (rule bin_center_bounds)
qed

lemma covers_build_mask_target:
  assumes "15 \<le> r" "r \<le> 240" "15 \<le> g" "g \<le> 240" "15 \<le> b" "b \<le> 240"
  shows "covers (build_mask img (r, g, b))"
proof -
  from assms have "covers (tolerance_mask img (b, g, r))"
    by (intro covers_tolerance_mask)
  then show ?thesis
    by (simp add: build_mask_def target_bgr_def morph_close_def covers_dilate
        covers_erode_once covers_dilate_once)
qed

lemma covers_build_mask:
  assumes "set idxs \<subseteq> {..<512}"
  shows "covers (build_mask img (detect_watermark_color idxs))"
proof -
  obtain r g b where d: "detect_watermark_color idxs = (r, g, b)"
    by (cases "detect_watermark_color idxs") auto
  from detect_bounds [OF assms d] show ?thesis
    unfolding d by (intro covers_build_mask_target) simp_all
qed

text \<open>
  So in the whole function no pixel of the image lies outside the mask, and on an image
  with at least one pixel the test \<open>np.sum(mask) == 0\<close> does not succeed.
\<close>

lemma mask_selects_every_pixel:
  assumes "shape h w img" "set idxs \<subseteq> {..<512}" "y < h" "x < w"
  shows "selected (build_mask img (detect_watermark_color idxs)) y x"
proof -
  have s: "shape h w (build_mask img (detect_watermark_color idxs))"
    using assms(1) by (rule shape_build_mask)
  have "covers (build_mask img (detect_watermark_color idxs))"
    using assms(2) by (rule covers_build_mask)
  with s assms(3,4) show ?thesis
    by (simp add: selected_shape [OF s] covers_iff shape_iff)
qed

lemma shape_eqI:
  assumes "shape h w a" "shape h w b" "\<And>y x. y < h \<Longrightarrow> x < w \<Longrightarrow> a ! y ! x = b ! y ! x"
  shows "a = b"
proof (rule nth_equalityI)
  show "length a = length b"
    using assms(1,2) by (simp add: shape_iff)
next
  fix y
  assume "y < length a"
  then have y: "y < h"
    using assms(1) by (simp add: shape_iff)
  show "a ! y = b ! y"
  proof (rule nth_equalityI)
    show "length (a ! y) = length (b ! y)"
      using assms(1,2) y by (simp add: shape_iff)
  next
    fix x
    assume "x < length (a ! y)"
    then have "x < w"
      using assms(1) y by (simp add: shape_iff)
    with y show "a ! y ! x = b ! y ! x"
      by (rule assms(3))
  qed
qed

lemma opencv_value: "BGR2HSV opencv (p0, p1, p2) = (hh, s, v) \<Longrightarrow> v = max p0 (max p1 p2)"
proof -
  have "word_of_int (max (uint p0) (max (uint p1) (uint p2))) = max p0 (max p1 p2)"
    by (simp add: word_of_int_max_uint uint_max_word [symmetric])
  moreover assume "BGR2HSV opencv (p0, p1, p2) = (hh, s, v)"
  ultimately show ?thesis
    by (auto simp: opencv_def cv_bgr2hsv_def hsv_value_def)
qed

lemma opencv_gray: "HSV2BGR opencv (hh, 0, v) = (v, v, v)"
  by (simp add: opencv_def cv_hsv2bgr_def)

text \<open>
  With OpenCV's conversions the whole function is a map over the pixels: a pixel of value
  below 175 is kept, a brighter pixel becomes white when its spread is at least 50 and
  the gray of its value otherwise. Neither the detected colour nor the mask enters.
\<close>

lemma ne_set_nonempty: "v \<in> set xs \<Longrightarrow> xs \<noteq> []"
  by (cases xs) simp_all

lemma remove_watermark_result:
  assumes "shape h w img" "y < h" "x < w"
  shows "remove_watermark_from_image cv idxs img
         = Inr (process_with_mask cv img (build_mask img (detect_watermark_color idxs)))"
proof -
  from assms have "y < length img" "x < length (img ! y)"
    by (simp_all add: shape_iff)
  then have "img ! y \<in> set img" "img ! y ! x \<in> set (img ! y)"
    by simp_all
  then have "img ! y ! x \<in> set (concat img)"
    by auto
  then have "concat img \<noteq> []"
    by (rule ne_set_nonempty)
  then show ?thesis
    by (simp add: remove_watermark_from_image_def)
qed

lemma remove_watermark_pixel:
  assumes "shape h w img" "set idxs \<subseteq> {..<512}" "y < h" "x < w"
    and p: "img ! y ! x = (p0, p1, p2)"
  shows "\<exists>out. remove_watermark_from_image opencv idxs img = Inr out \<and> out ! y ! x =
     (if max p0 (max p1 p2) < 175 then (p0, p1, p2)
      else if spread (p0, p1, p2) \<ge> 50 then (255, 255, 255)
      else (max p0 (max p1 p2), max p0 (max p1 p2), max p0 (max p1 p2)))"
proof -
  define msk where "msk = build_mask img (detect_watermark_color idxs)"
  have sm: "shape h w msk"
    using assms(1) by (simp add: msk_def shape_build_mask)
  have "covers msk"
    using assms(2) by (simp add: msk_def covers_build_mask)
  with sm assms(3,4) have m: "msk ! y ! x \<noteq> 0"
    by (simp add: covers_iff shape_iff)
  then have "selected msk y x"
    using assms(3,4) by (simp add: selected_shape [OF sm])
  then have nz: "mask_sum msk \<noteq> 0"
    by (auto simp: mask_sum_zero_iff)
  obtain hh s v where hsv: "BGR2HSV opencv (p0, p1, p2) = (hh, s, v)"
    by (cases "BGR2HSV opencv (p0, p1, p2)") auto
  have v: "v = max p0 (max p1 p2)"
    using hsv by (rule opencv_value)
  have a: "hsv_adjusted opencv img msk ! y ! x = (hh, 0, v)"
    using m by (simp add: hsv_adjusted_nth [OF assms(1) sm assms(3,4)] p hsv)
  have r: "refined_mask opencv img msk ! y ! x = (if v < 175 then 0 else msk ! y ! x)"
    by (simp add: refined_mask_nth [OF assms(1) sm assms(3,4)] a)
  have t: "text_mask opencv img msk ! y ! x = (if v < 175 then msk ! y ! x else 0)"
    using m by (simp add: text_mask_cases [OF assms(1) sm assms(3,4)] r)
  have res: "remove_watermark_from_image opencv idxs img = Inr (composite opencv img msk)"
    using nz by (simp add: remove_watermark_result [OF assms(1,3,4)] process_with_mask_def msk_def)
  have "composite opencv img msk ! y ! x =
     (if max p0 (max p1 p2) < 175 then (p0, p1, p2)
      else if spread (p0, p1, p2) \<ge> 50 then (255, 255, 255)
      else (max p0 (max p1 p2), max p0 (max p1 p2), max p0 (max p1 p2)))"
    using m
    by (simp add: composite_nth [OF assms(1) sm assms(3,4)] r t a p v color_diff_ge_50
        opencv_gray)
  with res show ?thesis
    by blast
qed

lemma shape_process_with_mask:
  assumes "shape h w img" "shape h w msk"
  shows "shape h w (process_with_mask cv img msk)"
  using assms by (simp add: process_with_mask_def shape_composite)



lemma scan_finds_bin_510:
  assumes "510 \<in> set idxs"
  shows "\<exists>idx. idx \<in> set idxs \<and> passes_filters (bin_center idx)
           \<and> detect_watermark_color idxs = bin_center idx"
proof -
  have "passes_filters (bin_center 510)"
    by (simp add: passes_filters_def bin_center_def unravel_index_def)
  with assms have "\<not> (\<forall>j\<in>set idxs. \<not> passes_filters (bin_center j))"
    by blast
  with detect_cases [of idxs] obtain pre idx post where
    "idxs = pre @ idx # post" "passes_filters (bin_center idx)"
    "detect_watermark_color idxs = bin_center idx"
    by blast
  then show ?thesis
    by auto
qed

lemma bin_center_not_fallback: "bin_center idx \<noteq> (230, 230, 230)"
proof
  assume "bin_center idx = (230, 230, 230)"
  then have "int (idx mod 8) * 32 + 16 = 230"
    by (simp add: bin_center_components)
  then have "(int (idx mod 8) * 32 + 16) mod 32 = (230 :: int) mod 32"
    by (rule arg_cong)
  then show False
    by simp
qed

text \<open>
  When the scan runs over all 512 bins it finds a passing bin, whatever the image: the
  loop does not look at the frequency of a bin, and bin 510 with centre (240, 240, 208)
  passes. The fallback (230, 230, 230) is then never the result.
\<close>

lemma fallback_is_not_reached:
  assumes "set sorted_indices = {..<512}"
  shows "passes_filters (detect_watermark_color sorted_indices)
       \<and> detect_watermark_color sorted_indices \<noteq> (230, 230, 230)"
proof -
  from assms have "510 \<in> set sorted_indices"
    by simp
  from scan_finds_bin_510 [OF this] obtain idx where
    "passes_filters (bin_center idx)" "detect_watermark_color sorted_indices = bin_center idx"
    by blast
  then show ?thesis
    by (simp add: bin_center_not_fallback)
qed

text \<open>
  Claim C7, as amended. For an all-white image the tolerance mask is not empty: built
  around the fallback (230, 230, 230), or around the colour the detector returns for any
  order of the 512 bins, it selects every pixel. Refinement and compositing run, and
  the output equals the input.
\<close>

theorem all_white_image_is_processed_unchanged:
  assumes "img = replicate h (replicate w (255, 255, 255))" "y < h" "x < w"
    and "descending_order (hist :: nat \<Rightarrow> 'a :: linorder) sorted_indices"
  shows "selected (build_mask img (230, 230, 230)) y x
       \<and> selected (build_mask img (detect_watermark_color sorted_indices)) y x
       \<and> remove_watermark_from_image opencv sorted_indices img = Inr img"
proof -
  from assms(4) have sub: "set sorted_indices \<subseteq> {..<512}"
    by (simp add: descending_order_def)
  have si: "shape h w img"
    by (simp add: assms(1) shape_iff)
  have sel: "selected (build_mask img (detect_watermark_color sorted_indices)) y x"
    using si sub assms(2,3) by (rule mask_selects_every_pixel)
  have sf: "shape h w (build_mask img (230, 230, 230))"
    using si by (rule shape_build_mask)
  have "covers (build_mask img (230, 230, 230))"
    by (rule covers_build_mask_target) simp_all
  with sf assms(2,3) have self: "selected (build_mask img (230, 230, 230)) y x"
    by (simp add: selected_shape [OF sf] covers_iff shape_iff)
  define out where
    "out = process_with_mask opencv img (build_mask img (detect_watermark_color sorted_indices))"
  have res: "remove_watermark_from_image opencv sorted_indices img = Inr out"
    by (simp add: remove_watermark_result [OF si assms(2,3)] out_def)
  have so: "shape h w out"
    unfolding out_def using si shape_build_mask [OF si] by (rule shape_process_with_mask)
  have px: "out ! y' ! x' = img ! y' ! x'" if "y' < h" "x' < w" for y' x'
  proof -
    have w: "img ! y' ! x' = (255, 255, 255)"
      using that by (simp add: assms(1))
    from remove_watermark_pixel [OF si sub that w] res show ?thesis
      by (simp add: w spread_def)
  qed
  have "out = img"
    using so si px by (rule shape_eqI)
  with res sel self show ?thesis
    by simp
qed

text \<open>The theorem at the one-pixel white image and the order 511, 510, ..., 0.\<close>

theorem all_white_image_is_processed_unchanged_witness:
  "[[(255, 255, 255) :: pixel]] = replicate 1 (replicate 1 (255, 255, 255))
   \<and> descending_order (calcHist [[(255, 255, 255)]]) (rev [0..<512])
   \<and> selected (build_mask [[(255, 255, 255)]] (230, 230, 230)) 0 0
   \<and> selected (build_mask [[(255, 255, 255)]] (detect_watermark_color (rev [0..<512]))) 0 0
   \<and> remove_watermark_from_image opencv (rev [0..<512]) [[(255, 255, 255)]]
       = Inr [[(255, 255, 255)]]"
proof -
  have i: "[[(255, 255, 255) :: pixel]] = replicate 1 (replicate 1 (255, 255, 255))"
    by simp
  from i descending_order_white
    all_white_image_is_processed_unchanged [OF i _ _ descending_order_white, of 0 0]
  show ?thesis
    by simp
qed

lemma selected_build_mask_one_pixel:
  assumes "15 \<le> r" "r \<le> 240" "15 \<le> g" "g \<le> 240" "15 \<le> b" "b \<le> 240"
  shows "selected (build_mask [[p]] (r, g, b)) 0 0"
proof -
  have s: "shape 1 1 (build_mask [[p]] (r, g, b))"
    by (rule shape_build_mask) (simp add: shape_iff)
  have "covers (build_mask [[p]] (r, g, b))"
    using assms by (rule covers_build_mask_target)
  with s show ?thesis
    by (simp add: selected_shape [OF s] covers_iff shape_iff)
qed

text \<open>
  Claim C7 as stated fails at the one-pixel white image: with the bins in the order
  511, 510, ..., 0 (bin 511 holds the pixel, all others are empty) the detector returns
  (240, 240, 208), and the masks around the fallback colour and around the detected colour
  both select the white pixel.
\<close>

theorem all_white_image_mask_is_not_empty:
  "descending_order (calcHist [[(255, 255, 255)]]) (rev [0..<512])
   \<and> detect_watermark_color (rev [0..<512]) = (240, 240, 208)
   \<and> tolerance_mask [[(255, 255, 255)]] (target_bgr (230, 230, 230)) = [[252]]
   \<and> selected (build_mask [[(255, 255, 255)]] (230, 230, 230)) 0 0
   \<and> selected (build_mask [[(255, 255, 255)]] (240, 240, 208)) 0 0"
proof -
  have "detect_watermark_color (rev [0..<512]) = (240, 240, 208)"
    by (simp add: detect_watermark_color_def bin_center_def unravel_index_def rev_upt_512)
  moreover have "tolerance_mask [[(255, 255, 255)]] (target_bgr (230, 230, 230)) = [[252]]"
    by code_simp
  moreover have "selected (build_mask [[(255, 255, 255)]] (230, 230, 230)) 0 0"
    by (rule selected_build_mask_one_pixel) simp_all
  moreover have "selected (build_mask [[(255, 255, 255)]] (240, 240, 208)) 0 0"
    by (rule selected_build_mask_one_pixel) simp_all
  ultimately show ?thesis
    using descending_order_white by simp
qed

end
